theory Spec2Isabelle
  imports Main "HOL-Library.Word"
begin

unbundle bit_operations_syntax

section \<open>Values and objects of the Chalk runtime\<close>

text \<open>
  Modelled from the spec: the header \<^verbatim>\<open>chalkp.h\<close>, which declares \<^verbatim>\<open>CK_VALUE\<close>,
  \<^verbatim>\<open>CK_OBJECT\<close>, \<^verbatim>\<open>CK_DICT\<close>, \<^verbatim>\<open>UINTN\<close> and the macros on them, is not among the
  sources. The value is a tagged union with the variants Undefined, Null, Boolean, Integer
  and Object reference. An object is seen through its pointer: its storage address and the
  fields that \<^verbatim>\<open>CkpHashObject\<close> reads (the cached hash of a string, the name string of a
  class, the integer bounds of a range). Integers are 64 bits wide, hashes (\<^verbatim>\<open>ULONG\<close>) 32 bits.
  \<^verbatim>\<open>UINTN\<close> quantities (counts, capacities, indices, addresses) are natural numbers: the
  tables considered here are far below the size at which \<^verbatim>\<open>Capacity * 768\<close> could wrap.
\<close>

datatype CK_STRING_OBJECT = CK_STRING_OBJECT (StringAddress: nat) (Hash: "32 word")

datatype CK_OBJECT =
    CkObjectClass nat CK_STRING_OBJECT
  | CkObjectString CK_STRING_OBJECT
  | CkObjectRange nat "64 word" "64 word"
  | CkObjectOther nat

datatype CK_VALUE =
    CkValueUndefined
  | CkValueNull
  | CkValueBoolean bool
  | CkValueInteger "64 word"
  | CkValueObject CK_OBJECT

definition CK_UNDEFINED_VALUE :: CK_VALUE where
  "CK_UNDEFINED_VALUE = CkValueUndefined"

definition CK_NULL_VALUE :: CK_VALUE where
  "CK_NULL_VALUE = CkValueNull"

definition CK_TRUE_VALUE :: CK_VALUE where
  "CK_TRUE_VALUE = CkValueBoolean True"

fun CK_IS_UNDEFINED :: "CK_VALUE \<Rightarrow> bool" where
  "CK_IS_UNDEFINED CkValueUndefined = True"
| "CK_IS_UNDEFINED _ = False"

section \<open>Hashing (\<^verbatim>\<open>CkpHashValue\<close>, \<^verbatim>\<open>CkpHashObject\<close>)\<close>

text \<open>
  \<^verbatim>\<open>CkpHashObject\<close> switches on the object type: a class falls through to the string case
  with its name, a range XORs the truncated bounds, everything else returns the pointer
  shifted right by four, truncated to \<^verbatim>\<open>ULONG\<close>.
\<close>

fun CkpHashObject :: "CK_OBJECT \<Rightarrow> 32 word" where
  "CkpHashObject (CkObjectClass a name) = Hash name"
| "CkpHashObject (CkObjectString s) = Hash s"
| "CkpHashObject (CkObjectRange a from to) = (ucast from) XOR (ucast to)"
| "CkpHashObject (CkObjectOther a) = of_nat (drop_bit 4 a)"

fun CkpHashValue :: "CK_VALUE \<Rightarrow> 32 word" where
  "CkpHashValue CkValueNull = 0"
| "CkpHashValue (CkValueInteger i) = ucast i"
| "CkpHashValue (CkValueObject obj) = CkpHashObject obj"
| "CkpHashValue _ = 0"

section \<open>The dictionary\<close>

definition DICT_LOAD_FACTOR :: nat where "DICT_LOAD_FACTOR = 768"
definition DICT_GROW_FACTOR :: nat where "DICT_GROW_FACTOR = 2"
definition DICT_SHRINK_FACTOR :: nat where "DICT_SHRINK_FACTOR = 3"
definition DICT_MIN_CAPACITY :: nat where "DICT_MIN_CAPACITY = 16"

record CK_DICT_ENTRY =
  Key :: CK_VALUE
  Value :: CK_VALUE

text \<open>The entry array is a list; the \<^verbatim>\<open>NULL\<close> array of a fresh dictionary is the empty list.\<close>

record CK_DICT =
  Count :: nat
  Capacity :: nat
  Entries :: "CK_DICT_ENTRY list"

text \<open>
  What C leaves undefined, or stops on, is a fault of the model: the remainder by a zero
  capacity, an entry read beyond the array, and a violated \<^verbatim>\<open>CK_ASSERT\<close>.
\<close>

datatype ck_fault = DivideByZero | OutOfBounds | AssertFailed

type_synonym ck_equal = "CK_VALUE \<Rightarrow> CK_VALUE \<Rightarrow> bool"

text \<open>
  Three things come from outside \<^verbatim>\<open>dict.c\<close> and are parameters of the model:
  \<^item> \<open>eq\<close>, the runtime's equality \<^verbatim>\<open>CkpAreValuesEqual\<close>;
  \<^item> \<open>asserts\<close>, whether \<^verbatim>\<open>CK_ASSERT\<close> is compiled in (a violated assertion then stops the
    program) or compiled out (the statement does nothing);
  \<^item> \<open>alloc\<close>, whether the one call of \<^verbatim>\<open>CkAllocate\<close> that an operation may make succeeds.
  The balanced \<^verbatim>\<open>CkpPushRoot\<close>/\<^verbatim>\<open>CkpPopRoot\<close> pair around the shrink in \<^verbatim>\<open>CkpDictRemove\<close>
  only touches the collector's root stack and is left out.
\<close>

definition CkpDictCreate :: "bool \<Rightarrow> CK_DICT option" where
  "CkpDictCreate alloc =
     (if alloc then Some \<lparr>Count = 0, Capacity = 0, Entries = []\<rparr> else None)"

function CkpDictFindEntry_loop ::
  "ck_equal \<Rightarrow> CK_DICT \<Rightarrow> CK_VALUE \<Rightarrow> nat \<Rightarrow> nat \<Rightarrow> ck_fault + nat option" where
  "CkpDictFindEntry_loop eq dict key index loop =
     (if loop < Capacity dict then
        (if index < length (Entries dict) then
           (let entry = Entries dict ! index in
            if CK_IS_UNDEFINED (Key entry) \<and> CK_IS_UNDEFINED (Value entry) then Inr None
            else if \<not> CK_IS_UNDEFINED (Key entry) \<and> eq (Key entry) key then Inr (Some index)
            else CkpDictFindEntry_loop eq dict key
                   (if index + 1 = Capacity dict then 0 else index + 1) (loop + 1))
         else Inl OutOfBounds)
      else Inr None)"
  by pat_completeness auto
termination
  by (relation "measure (\<lambda>(eq, dict, key, index, loop). Capacity dict - loop)") auto

declare CkpDictFindEntry_loop.simps [simp del]

definition CkpDictFindEntry :: "ck_equal \<Rightarrow> CK_DICT \<Rightarrow> CK_VALUE \<Rightarrow> ck_fault + nat option" where
  "CkpDictFindEntry eq dict key =
     (if Count dict = 0 then Inr None
      else if Capacity dict = 0 then Inl DivideByZero
      else CkpDictFindEntry_loop eq dict key (unat (CkpHashValue key) mod Capacity dict) 0)"

definition CkpDictGet :: "ck_equal \<Rightarrow> CK_DICT \<Rightarrow> CK_VALUE \<Rightarrow> ck_fault + CK_VALUE" where
  "CkpDictGet eq dict key =
     (case CkpDictFindEntry eq dict key of
        Inl e \<Rightarrow> Inl e
      | Inr (Some i) \<Rightarrow> Inr (Value (Entries dict ! i))
      | Inr None \<Rightarrow> Inr CK_UNDEFINED_VALUE)"

function CkpDictAddEntry_loop ::
  "ck_equal \<Rightarrow> CK_DICT_ENTRY list \<Rightarrow> nat \<Rightarrow> CK_VALUE \<Rightarrow> CK_VALUE \<Rightarrow> nat \<Rightarrow> nat
     \<Rightarrow> ck_fault + (CK_DICT_ENTRY list \<times> bool)" where
  "CkpDictAddEntry_loop eq entries capacity key val index loop =
     (if loop < capacity then
        (if index < length entries then
           (let entry = entries ! index in
            if CK_IS_UNDEFINED (Key entry)
            then Inr (entries[index := entry\<lparr>Key := key, Value := val\<rparr>], True)
            else if eq (Key entry) key
            then Inr (entries[index := entry\<lparr>Value := val\<rparr>], False)
            else CkpDictAddEntry_loop eq entries capacity key val
                   (if index + 1 = capacity then 0 else index + 1) (loop + 1))
         else Inl OutOfBounds)
      else Inr (entries, False))"
  by pat_completeness auto
termination
  by (relation "measure (\<lambda>(eq, entries, capacity, key, val, index, loop). capacity - loop)") auto

declare CkpDictAddEntry_loop.simps [simp del]

definition CkpDictAddEntry ::
  "ck_equal \<Rightarrow> CK_DICT_ENTRY list \<Rightarrow> nat \<Rightarrow> CK_VALUE \<Rightarrow> CK_VALUE
     \<Rightarrow> ck_fault + (CK_DICT_ENTRY list \<times> bool)" where
  "CkpDictAddEntry eq entries capacity key val =
     (if capacity = 0 then Inl DivideByZero
      else CkpDictAddEntry_loop eq entries capacity key val
             (unat (CkpHashValue key) mod capacity) 0)"

text \<open>The loop of \<^verbatim>\<open>CkpDictResize\<close> that re-adds the old entries to the new array.\<close>

function CkpDictResize_loop ::
  "ck_equal \<Rightarrow> CK_DICT \<Rightarrow> CK_DICT_ENTRY list \<Rightarrow> nat \<Rightarrow> nat
     \<Rightarrow> ck_fault + CK_DICT_ENTRY list" where
  "CkpDictResize_loop eq dict newEntries newCapacity index =
     (if index < Capacity dict then
        (if index < length (Entries dict) then
           (let oldEntry = Entries dict ! index in
            if \<not> CK_IS_UNDEFINED (Key oldEntry) then
              (case CkpDictAddEntry eq newEntries newCapacity (Key oldEntry) (Value oldEntry) of
                 Inl e \<Rightarrow> Inl e
               | Inr r \<Rightarrow> CkpDictResize_loop eq dict (fst r) newCapacity (index + 1))
            else CkpDictResize_loop eq dict newEntries newCapacity (index + 1))
         else Inl OutOfBounds)
      else Inr newEntries)"
  by pat_completeness auto
termination
  by (relation "measure (\<lambda>(eq, dict, newEntries, newCapacity, index). Capacity dict - index)") auto

declare CkpDictResize_loop.simps [simp del]

definition CkpDictResize ::
  "ck_equal \<Rightarrow> bool \<Rightarrow> bool \<Rightarrow> CK_DICT \<Rightarrow> nat \<Rightarrow> ck_fault + CK_DICT" where
  "CkpDictResize eq asserts alloc dict newCapacity =
     (if asserts \<and> \<not> (newCapacity > Count dict) then Inl AssertFailed
      else if \<not> alloc then Inr dict
      else (case CkpDictResize_loop eq dict
                   (replicate newCapacity \<lparr>Key = CK_UNDEFINED_VALUE, Value = CK_UNDEFINED_VALUE\<rparr>)
                   newCapacity 0 of
              Inl e \<Rightarrow> Inl e
            | Inr newEntries \<Rightarrow> Inr (dict\<lparr>Entries := newEntries, Capacity := newCapacity\<rparr>)))"

definition CkpDictSet ::
  "ck_equal \<Rightarrow> bool \<Rightarrow> bool \<Rightarrow> CK_DICT \<Rightarrow> CK_VALUE \<Rightarrow> CK_VALUE \<Rightarrow> ck_fault + CK_DICT" where
  "CkpDictSet eq asserts alloc dict key val =
     (case (if Count dict + 1 > Capacity dict * DICT_LOAD_FACTOR div 1024
            then CkpDictResize eq asserts alloc dict
                   (if Capacity dict * DICT_GROW_FACTOR < DICT_MIN_CAPACITY
                    then DICT_MIN_CAPACITY else Capacity dict * DICT_GROW_FACTOR)
            else Inr dict) of
        Inl e \<Rightarrow> Inl e
      | Inr d \<Rightarrow>
          (case CkpDictAddEntry eq (Entries d) (Capacity d) key val of
             Inl e \<Rightarrow> Inl e
           | Inr r \<Rightarrow>
               Inr (if snd r then d\<lparr>Entries := fst r, Count := Count d + 1\<rparr>
                    else d\<lparr>Entries := fst r\<rparr>)))"

definition CkpDictRemove ::
  "ck_equal \<Rightarrow> bool \<Rightarrow> bool \<Rightarrow> CK_DICT \<Rightarrow> CK_VALUE \<Rightarrow> ck_fault + (CK_VALUE \<times> CK_DICT)" where
  "CkpDictRemove eq asserts alloc dict key =
     (case CkpDictFindEntry eq dict key of
        Inl e \<Rightarrow> Inl e
      | Inr None \<Rightarrow> Inr (CK_NULL_VALUE, dict)
      | Inr (Some i) \<Rightarrow>
          (let val = Value (Entries dict ! i);
               d = dict\<lparr>Entries := (Entries dict)
                          [i := (Entries dict ! i)\<lparr>Key := CK_UNDEFINED_VALUE, Value := CK_TRUE_VALUE\<rparr>],
                        Count := Count dict - 1\<rparr>
           in if Capacity d > DICT_MIN_CAPACITY \<and>
                 Count d div (Capacity d div DICT_SHRINK_FACTOR * DICT_LOAD_FACTOR div 1024) \<noteq> 0
              then
                (let capacity = (if Capacity d div DICT_GROW_FACTOR < DICT_MIN_CAPACITY
                                 then DICT_MIN_CAPACITY else Capacity d div DICT_GROW_FACTOR)
                 in if capacity \<noteq> Capacity d
                    then (case CkpDictResize eq asserts alloc d capacity of
                            Inl e \<Rightarrow> Inl e
                          | Inr d' \<Rightarrow> Inr (val, d'))
                    else Inr (val, d))
              else Inr (val, d)))"

section \<open>Sequences of operations\<close>

text \<open>
  A caller's sequence of \<^verbatim>\<open>CkpDictSet\<close> and \<^verbatim>\<open>CkpDictRemove\<close> calls in which every
  allocation succeeds; a fault ends the run.
\<close>

datatype dict_op = OpSet CK_VALUE CK_VALUE | OpRemove CK_VALUE

fun run_ops :: "ck_equal \<Rightarrow> bool \<Rightarrow> CK_DICT \<Rightarrow> dict_op list \<Rightarrow> ck_fault + CK_DICT" where
  "run_ops eq asserts dict [] = Inr dict"
| "run_ops eq asserts dict (OpSet key val # ops) =
     (case CkpDictSet eq asserts True dict key val of
        Inl e \<Rightarrow> Inl e
      | Inr d \<Rightarrow> run_ops eq asserts d ops)"
| "run_ops eq asserts dict (OpRemove key # ops) =
     (case CkpDictRemove eq asserts True dict key of
        Inl e \<Rightarrow> Inl e
      | Inr r \<Rightarrow> run_ops eq asserts (snd r) ops)"

text \<open>The dictionary that \<^verbatim>\<open>CkpDictCreate\<close> returns, and the integer keys of the examples.\<close>

definition empty_dict :: CK_DICT where
  "empty_dict = \<lparr>Count = 0, Capacity = 0, Entries = []\<rparr>"

definition int_key :: "nat \<Rightarrow> CK_VALUE" where
  "int_key n = CkValueInteger (of_nat n)"

section \<open>Notions used to state the properties\<close>

text \<open>
  The three states of a slot: never used, deleted, in use. Zeroed memory is the undefined
  value, so a freshly allocated array consists of empty entries.
\<close>

definition slot_Empty :: "CK_DICT_ENTRY \<Rightarrow> bool" where
  "slot_Empty e = (CK_IS_UNDEFINED (Key e) \<and> CK_IS_UNDEFINED (Value e))"

definition slot_Tombstone :: "CK_DICT_ENTRY \<Rightarrow> bool" where
  "slot_Tombstone e = (CK_IS_UNDEFINED (Key e) \<and> \<not> CK_IS_UNDEFINED (Value e))"

definition slot_Live :: "CK_DICT_ENTRY \<Rightarrow> bool" where
  "slot_Live e = (\<not> CK_IS_UNDEFINED (Key e))"

definition empty_entry :: CK_DICT_ENTRY where
  "empty_entry = \<lparr>Key = CK_UNDEFINED_VALUE, Value = CK_UNDEFINED_VALUE\<rparr>"

text \<open>
  The probe path: the slots visited by a linear scan of \<open>n\<close> steps from \<open>index\<close>, wrapping at
  the capacity. The full path makes \<open>capacity\<close> steps.
\<close>

definition probe_from :: "nat \<Rightarrow> nat \<Rightarrow> nat \<Rightarrow> nat list" where
  "probe_from index capacity n = map (\<lambda>j. (index + j) mod capacity) [0..<n]"

definition probe_path :: "nat \<Rightarrow> nat \<Rightarrow> nat list" where
  "probe_path start capacity = probe_from start capacity capacity"

text \<open>
  Lookup as a scan of the probe path: the scan ends at the first slot that is empty or is
  in use with a key equal to the query; an empty slot means not found. Deleted slots do not
  end the scan.
\<close>

definition find_stop :: "ck_equal \<Rightarrow> CK_DICT_ENTRY list \<Rightarrow> CK_VALUE \<Rightarrow> nat \<Rightarrow> bool" where
  "find_stop eq entries key i =
     (slot_Empty (entries ! i) \<or> (slot_Live (entries ! i) \<and> eq (Key (entries ! i)) key))"

definition find_scan :: "ck_equal \<Rightarrow> CK_DICT_ENTRY list \<Rightarrow> CK_VALUE \<Rightarrow> nat list \<Rightarrow> nat option" where
  "find_scan eq entries key path =
     (case List.find (find_stop eq entries key) path of
        None \<Rightarrow> None
      | Some i \<Rightarrow> if slot_Empty (entries ! i) then None else Some i)"

definition Find_spec :: "ck_equal \<Rightarrow> CK_DICT \<Rightarrow> CK_VALUE \<Rightarrow> nat option" where
  "Find_spec eq dict key =
     (if Count dict = 0 then None
      else find_scan eq (Entries dict) key
             (probe_path (unat (CkpHashValue key) mod Capacity dict) (Capacity dict)))"

text \<open>
  What the loop of \<^verbatim>\<open>CkpDictAddEntry\<close> computes, as a scan of the probe path: the scan ends
  at the first slot whose key is undefined (empty or deleted alike) or equal to the new key;
  the first kind is written and reported as new, the second has its value replaced.
\<close>

definition add_stop :: "ck_equal \<Rightarrow> CK_DICT_ENTRY list \<Rightarrow> CK_VALUE \<Rightarrow> nat \<Rightarrow> bool" where
  "add_stop eq entries key i =
     (CK_IS_UNDEFINED (Key (entries ! i)) \<or> eq (Key (entries ! i)) key)"

definition add_scan ::
  "ck_equal \<Rightarrow> CK_DICT_ENTRY list \<Rightarrow> CK_VALUE \<Rightarrow> CK_VALUE \<Rightarrow> nat list
     \<Rightarrow> CK_DICT_ENTRY list \<times> bool" where
  "add_scan eq entries key val path =
     (case List.find (add_stop eq entries key) path of
        None \<Rightarrow> (entries, False)
      | Some i \<Rightarrow>
          if CK_IS_UNDEFINED (Key (entries ! i))
          then (entries[i := (entries ! i)\<lparr>Key := key, Value := val\<rparr>], True)
          else (entries[i := (entries ! i)\<lparr>Value := val\<rparr>], False))"

definition AddEntry_spec ::
  "ck_equal \<Rightarrow> CK_DICT_ENTRY list \<Rightarrow> nat \<Rightarrow> CK_VALUE \<Rightarrow> CK_VALUE
     \<Rightarrow> CK_DICT_ENTRY list \<times> bool" where
  "AddEntry_spec eq entries capacity key val =
     add_scan eq entries key val (probe_path (unat (CkpHashValue key) mod capacity) capacity)"

text \<open>
  The number of slots in use, and the facts every operation keeps: the array has \<open>Capacity\<close>
  slots and no more of them are in use than \<open>Count\<close> says.
\<close>

definition live_count :: "CK_DICT_ENTRY list \<Rightarrow> nat" where
  "live_count entries = length (filter slot_Live entries)"

definition dict_inv :: "CK_DICT \<Rightarrow> bool" where
  "dict_inv dict =
     (length (Entries dict) = Capacity dict \<and> live_count (Entries dict) \<le> Count dict)"

text \<open>
  The intermediate state of \<^verbatim>\<open>CkpDictRemove\<close> after the found slot \<open>i\<close> has been marked
  deleted and the count decremented, the shrink test made on that state, and the capacity
  that the shrink asks for.
\<close>

definition tombstoned :: "CK_DICT \<Rightarrow> nat \<Rightarrow> CK_DICT" where
  "tombstoned dict i =
     dict\<lparr>Entries := (Entries dict)
              [i := (Entries dict ! i)\<lparr>Key := CK_UNDEFINED_VALUE, Value := CK_TRUE_VALUE\<rparr>],
          Count := Count dict - 1\<rparr>"

definition shrink_wanted :: "CK_DICT \<Rightarrow> bool" where
  "shrink_wanted d =
     (Capacity d > DICT_MIN_CAPACITY \<and>
      Count d div (Capacity d div DICT_SHRINK_FACTOR * DICT_LOAD_FACTOR div 1024) \<noteq> 0)"

definition shrink_capacity :: "CK_DICT \<Rightarrow> nat" where
  "shrink_capacity d =
     (if Capacity d div DICT_GROW_FACTOR < DICT_MIN_CAPACITY
      then DICT_MIN_CAPACITY else Capacity d div DICT_GROW_FACTOR)"

text \<open>Concrete keys, entries and dictionaries for the examples.\<close>

definition set_ops :: "nat list \<Rightarrow> dict_op list" where
  "set_ops ks = map (\<lambda>n. OpSet (int_key n) (int_key (100 + n))) ks"

definition remove_ops :: "nat list \<Rightarrow> dict_op list" where
  "remove_ops ks = map (\<lambda>n. OpRemove (int_key n)) ks"

definition summary :: "ck_fault + CK_DICT \<Rightarrow> ck_fault + nat \<times> nat" where
  "summary r = map_sum id (\<lambda>d. (Count d, Capacity d)) r"

definition tombstone_entry :: CK_DICT_ENTRY where
  "tombstone_entry = \<lparr>Key = CK_UNDEFINED_VALUE, Value = CK_TRUE_VALUE\<rparr>"

definition live_entry :: "nat \<Rightarrow> CK_DICT_ENTRY" where
  "live_entry n = \<lparr>Key = int_key n, Value = int_key (100 + n)\<rparr>"

text \<open>
  Two keys that both hash to slot 0 of a 16-slot table, as left by setting the integer keys
  0 and 16 in a fresh dictionary.
\<close>

definition collision_dict :: CK_DICT where
  "collision_dict =
     \<lparr>Count = 2, Capacity = 16,
      Entries = live_entry 0 # live_entry 16 # replicate 14 empty_entry\<rparr>"

text \<open>A 16-slot array whose slot 0 holds a deleted entry, all others never used.\<close>

definition deleted_first :: "CK_DICT_ENTRY list" where
  "deleted_first = tombstone_entry # replicate 15 empty_entry"

text \<open>
  The 16-slot array left by setting the integer keys 0 and 16 and removing key 0: a deleted
  slot followed by the entry of key 16, which was probed past slot 0.
\<close>

definition deleted_then_live :: "CK_DICT_ENTRY list" where
  "deleted_then_live = tombstone_entry # live_entry 16 # replicate 14 empty_entry"

text \<open>A lookup, a get or a remove made on the dictionary that a run ends with.\<close>

definition find_after ::
  "ck_equal \<Rightarrow> ck_fault + CK_DICT \<Rightarrow> CK_VALUE \<Rightarrow> ck_fault + nat option" where
  "find_after eq r key = (case r of Inl e \<Rightarrow> Inl e | Inr d \<Rightarrow> CkpDictFindEntry eq d key)"

definition get_after ::
  "ck_equal \<Rightarrow> ck_fault + CK_DICT \<Rightarrow> CK_VALUE \<Rightarrow> ck_fault + CK_VALUE" where
  "get_after eq r key = (case r of Inl e \<Rightarrow> Inl e | Inr d \<Rightarrow> CkpDictGet eq d key)"

definition remove_after ::
  "ck_equal \<Rightarrow> bool \<Rightarrow> ck_fault + CK_DICT \<Rightarrow> CK_VALUE \<Rightarrow> ck_fault + CK_VALUE" where
  "remove_after eq asserts r key =
     (case r of
        Inl e \<Rightarrow> Inl e
      | Inr d \<Rightarrow> map_sum id fst (CkpDictRemove eq asserts True d key))"

text \<open>
  A 32-slot table with a single entry, as left when the allocations of earlier shrink
  attempts failed.
\<close>

definition sparse_dict :: CK_DICT where
  "sparse_dict =
     \<lparr>Count = 1, Capacity = 32, Entries = live_entry 0 # replicate 31 empty_entry\<rparr>"

section \<open>Lemmas\<close>

subsection \<open>Probe paths\<close>

lemma probe_from_0: "probe_from index capacity 0 = []"
  by (simp add: probe_from_def)

lemma probe_from_Suc:
  "probe_from index capacity (Suc n) = index mod capacity # probe_from (Suc index) capacity n"
proof -
  have "[0..<Suc n] = 0 # map Suc [0..<n]"
    by (simp add: upt_conv_Cons map_Suc_upt del: upt_Suc)
  then show ?thesis
    by (simp add: probe_from_def comp_def del: upt_Suc)
qed

lemma probe_from_mod: "probe_from (index mod capacity) capacity n = probe_from index capacity n"
  by (simp add: probe_from_def mod_add_left_eq)

lemma probe_from_step:
  assumes "index < capacity"
  shows "probe_from index capacity (Suc n) =
         index # probe_from (if index + 1 = capacity then 0 else index + 1) capacity n"
proof (cases "index + 1 = capacity")
  case True
  have "probe_from (Suc index) capacity n = probe_from (Suc index mod capacity) capacity n"
    by (simp only: probe_from_mod)
  with True assms show ?thesis by (simp add: probe_from_Suc)
next
  case False
  with assms show ?thesis by (simp add: probe_from_Suc)
qed

lemma probe_path_bound:
  assumes "0 < capacity" "i \<in> set (probe_path start capacity)"
  shows "i < capacity"
  using assms by (auto simp: probe_path_def probe_from_def)

lemma probe_path_covers:
  assumes "x < capacity" "start < capacity"
  shows "x \<in> set (probe_path start capacity)"
proof -
  let ?j = "(x + capacity - start) mod capacity"
  have "?j < capacity" using assms by simp
  moreover have "(start + ?j) mod capacity = x"
  proof -
    have "(start + ?j) mod capacity = (start + (x + capacity - start)) mod capacity"
      by (simp add: mod_add_right_eq)
    also have "start + (x + capacity - start) = x + capacity" using assms by simp
    finally show ?thesis using assms by simp
  qed
  ultimately show ?thesis
    by (force simp: probe_path_def probe_from_def image_iff)
qed

lemma find_Some_weaken:
  assumes "List.find P xs = Some i" "Q i" "\<And>x. x \<noteq> i \<Longrightarrow> Q x \<Longrightarrow> P x"
  shows "List.find Q xs = Some i"
  using assms
proof (induction xs)
  case Nil
  then show ?case by simp
next
  case (Cons a xs)
  then show ?case by (auto split: if_splits)
qed

lemma find_Some_in: "List.find P xs = Some i \<Longrightarrow> i \<in> set xs \<and> P i"
  by (induction xs) (auto split: if_splits)

subsection \<open>The loops compute the scans\<close>

lemma find_loop_scan:
  assumes "length (Entries dict) = Capacity dict" "index < Capacity dict" "loop \<le> Capacity dict"
  shows "CkpDictFindEntry_loop eq dict key index loop =
         Inr (find_scan eq (Entries dict) key (probe_from index (Capacity dict) (Capacity dict - loop)))"
  using assms
proof (induction eq dict key index loop rule: CkpDictFindEntry_loop.induct)
  case (1 eq dict key index loop)
  show ?case
  proof (cases "loop < Capacity dict")
    case False
    then show ?thesis
      by (subst CkpDictFindEntry_loop.simps) (simp add: probe_from_0 find_scan_def)
  next
    case True
    let ?next = "if index + 1 = Capacity dict then 0 else index + 1"
    let ?e = "Entries dict ! index"
    have len: "index < length (Entries dict)" using "1.prems" by simp
    have n: "Capacity dict - loop = Suc (Capacity dict - (loop + 1))" using True by simp
    have path: "probe_from index (Capacity dict) (Capacity dict - loop) =
                index # probe_from ?next (Capacity dict) (Capacity dict - (loop + 1))"
      by (subst n) (rule probe_from_step [OF "1.prems"(2)])
    show ?thesis
    proof (cases "find_stop eq (Entries dict) key index")
      case stop: True
      then show ?thesis using True len
        by (subst CkpDictFindEntry_loop.simps)
           (auto simp: path find_scan_def find_stop_def slot_Empty_def slot_Live_def Let_def)
    next
      case cont: False
      have nx: "?next < Capacity dict" using "1.prems"(2) by auto
      have IH: "CkpDictFindEntry_loop eq dict key ?next (loop + 1) =
                Inr (find_scan eq (Entries dict) key
                       (probe_from ?next (Capacity dict) (Capacity dict - (loop + 1))))"
        using "1.IH" [OF True len refl _ _ "1.prems"(1) nx] cont True
        by (auto simp: find_stop_def slot_Empty_def slot_Live_def)
      have "CkpDictFindEntry_loop eq dict key index loop =
            CkpDictFindEntry_loop eq dict key ?next (loop + 1)"
        using True len cont
        by (subst CkpDictFindEntry_loop.simps)
           (auto simp: find_stop_def slot_Empty_def slot_Live_def Let_def)
      then show ?thesis using IH cont by (simp add: path find_scan_def)
    qed
  qed
qed

lemma FindEntry_refines:
  assumes "length (Entries dict) = Capacity dict"
  shows "CkpDictFindEntry eq dict key =
         (if Count dict \<noteq> 0 \<and> Capacity dict = 0 then Inl DivideByZero
          else Inr (Find_spec eq dict key))"
  using assms find_loop_scan [of dict "unat (CkpHashValue key) mod Capacity dict" 0 eq key]
  by (simp add: CkpDictFindEntry_def Find_spec_def probe_path_def)

lemma add_loop_scan:
  assumes "length entries = capacity" "index < capacity" "loop \<le> capacity"
  shows "CkpDictAddEntry_loop eq entries capacity key val index loop =
         Inr (add_scan eq entries key val (probe_from index capacity (capacity - loop)))"
  using assms
proof (induction eq entries capacity key val index loop rule: CkpDictAddEntry_loop.induct)
  case (1 eq entries capacity key val index loop)
  show ?case
  proof (cases "loop < capacity")
    case False
    then show ?thesis
      by (subst CkpDictAddEntry_loop.simps) (simp add: probe_from_0 add_scan_def)
  next
    case True
    let ?next = "if index + 1 = capacity then 0 else index + 1"
    have len: "index < length entries" using "1.prems" by simp
    have n: "capacity - loop = Suc (capacity - (loop + 1))" using True by simp
    have path: "probe_from index capacity (capacity - loop) =
                index # probe_from ?next capacity (capacity - (loop + 1))"
      by (subst n) (rule probe_from_step [OF "1.prems"(2)])
    show ?thesis
    proof (cases "add_stop eq entries key index")
      case stop: True
      then show ?thesis using True len
        by (subst CkpDictAddEntry_loop.simps)
           (auto simp: path add_scan_def add_stop_def Let_def)
    next
      case cont: False
      have nx: "?next < capacity" using "1.prems"(2) by auto
      have IH: "CkpDictAddEntry_loop eq entries capacity key val ?next (loop + 1) =
                Inr (add_scan eq entries key val (probe_from ?next capacity (capacity - (loop + 1))))"
        using "1.IH" [OF True len refl _ _ "1.prems"(1) nx] cont True
        by (auto simp: add_stop_def)
      have "CkpDictAddEntry_loop eq entries capacity key val index loop =
            CkpDictAddEntry_loop eq entries capacity key val ?next (loop + 1)"
        using True len cont
        by (subst CkpDictAddEntry_loop.simps) (auto simp: add_stop_def Let_def)
      then show ?thesis using IH cont by (simp add: path add_scan_def)
    qed
  qed
qed

lemma AddEntry_refines:
  assumes "length entries = capacity"
  shows "CkpDictAddEntry eq entries capacity key val =
         (if capacity = 0 then Inl DivideByZero
          else Inr (AddEntry_spec eq entries capacity key val))"
  using assms add_loop_scan [of entries capacity "unat (CkpHashValue key) mod capacity" 0 eq key val]
  by (simp add: CkpDictAddEntry_def AddEntry_spec_def probe_path_def)

subsection \<open>Slots in use under updates\<close>

lemma live_count_update:
  assumes "i < length xs"
  shows "live_count (xs[i := e]) + (if slot_Live (xs ! i) then 1 else 0) =
         live_count xs + (if slot_Live e then 1 else 0)"
  using assms
proof (induction xs arbitrary: i)
  case Nil
  then show ?case by simp
next
  case (Cons a xs)
  then show ?case by (cases i) (auto simp: live_count_def)
qed

lemma live_count_le_length: "live_count xs \<le> length xs"
  by (simp add: live_count_def)

lemma not_all_live:
  assumes "live_count xs < length xs"
  shows "\<exists>x < length xs. \<not> slot_Live (xs ! x)"
proof (rule ccontr)
  assume "\<not> ?thesis"
  then have "\<forall>e \<in> set xs. slot_Live e" by (auto simp: in_set_conv_nth)
  then have "filter slot_Live xs = xs" by (simp add: filter_id_conv)
  with assms show False by (simp add: live_count_def)
qed

lemma live_count_replicate_empty: "live_count (replicate n empty_entry) = 0"
  by (simp add: live_count_def empty_entry_def slot_Live_def CK_UNDEFINED_VALUE_def)

lemma live_count_pos:
  assumes "i < length xs" "slot_Live (xs ! i)"
  shows "0 < live_count xs"
proof -
  have "xs ! i \<in> set (filter slot_Live xs)" using assms by simp
  then show ?thesis unfolding live_count_def by (rule length_pos_if_in_set)
qed

lemma live_count_drop:
  assumes "index < length xs"
  shows "live_count (drop index xs) =
         (if slot_Live (xs ! index) then 1 else 0) + live_count (drop (Suc index) xs)"
proof -
  have "drop index xs = xs ! index # drop (Suc index) xs"
    using assms by (simp add: Cons_nth_drop_Suc)
  then show ?thesis by (simp add: live_count_def)
qed

subsection \<open>Insertion\<close>

lemma add_scan_length: "length (fst (add_scan eq entries key val path)) = length entries"
  by (simp add: add_scan_def split: option.splits)

lemma add_scan_live:
  assumes "\<forall>i \<in> set path. i < length entries"
  shows "live_count (fst (add_scan eq entries key val path))
         \<le> live_count entries + (if snd (add_scan eq entries key val path) then 1 else 0)"
proof (cases "List.find (add_stop eq entries key) path")
  case None
  then show ?thesis by (simp add: add_scan_def)
next
  case (Some i)
  then have i: "i < length entries" using assms find_Some_in by fastforce
  show ?thesis
  proof (cases "CK_IS_UNDEFINED (Key (entries ! i))")
    case True
    with Some live_count_update [OF i, of "(entries ! i)\<lparr>Key := key, Value := val\<rparr>"]
    show ?thesis by (auto simp: add_scan_def slot_Live_def split: if_splits)
  next
    case False
    with Some live_count_update [OF i, of "(entries ! i)\<lparr>Value := val\<rparr>"]
    show ?thesis by (auto simp: add_scan_def slot_Live_def split: if_splits)
  qed
qed

lemma add_scan_stored:
  assumes found: "List.find (add_stop eq entries key) path = Some i"
      and i: "i < length entries"
      and key: "\<not> CK_IS_UNDEFINED key" "eq key key"
  shows "find_scan eq (fst (add_scan eq entries key val path)) key path = Some i
         \<and> Value (fst (add_scan eq entries key val path) ! i) = val
         \<and> slot_Live (fst (add_scan eq entries key val path) ! i)"
proof -
  let ?es = "fst (add_scan eq entries key val path)"
  have P: "add_stop eq entries key i" using found find_Some_in by fastforce
  have upd: "\<exists>e. ?es = entries[i := e] \<and> \<not> CK_IS_UNDEFINED (Key e) \<and> eq (Key e) key \<and> Value e = val"
  proof (cases "CK_IS_UNDEFINED (Key (entries ! i))")
    case True
    with found key show ?thesis
      by (intro exI [of _ "(entries ! i)\<lparr>Key := key, Value := val\<rparr>"]) (simp add: add_scan_def)
  next
    case False
    with found P show ?thesis
      by (intro exI [of _ "(entries ! i)\<lparr>Value := val\<rparr>"]) (simp add: add_scan_def add_stop_def)
  qed
  then obtain e where e: "?es = entries[i := e]" "\<not> CK_IS_UNDEFINED (Key e)"
      "eq (Key e) key" "Value e = val" by blast
  have Q: "find_stop eq ?es key i" using e i by (simp add: find_stop_def slot_Live_def)
  have "List.find (find_stop eq ?es key) path = Some i"
  proof (rule find_Some_weaken [where P = "add_stop eq entries key"
                                     and Q = "find_stop eq ?es key"])
    show "List.find (add_stop eq entries key) path = Some i" by (rule found)
    show "find_stop eq ?es key i" by (rule Q)
    fix x assume "x \<noteq> i" "find_stop eq ?es key x"
    then show "add_stop eq entries key x"
      using e by (auto simp: find_stop_def add_stop_def slot_Empty_def slot_Live_def)
  qed
  then show ?thesis using e i by (simp add: find_scan_def slot_Empty_def slot_Live_def)
qed

lemma add_scan_finds:
  assumes "live_count entries < length entries" "length entries = capacity" "start < capacity"
  shows "\<exists>i < length entries. List.find (add_stop eq entries key) (probe_path start capacity) = Some i"
proof -
  obtain x where x: "x < length entries" "\<not> slot_Live (entries ! x)"
    using not_all_live [OF assms(1)] by blast
  then have "x \<in> set (probe_path start capacity)" "add_stop eq entries key x"
    using assms probe_path_covers by (auto simp: add_stop_def slot_Live_def)
  then have "List.find (add_stop eq entries key) (probe_path start capacity) \<noteq> None"
    by (auto simp: find_None_iff)
  then obtain i where i: "List.find (add_stop eq entries key) (probe_path start capacity) = Some i"
    by blast
  then have "i \<in> set (probe_path start capacity)" using find_Some_in by fastforce
  then have "i < capacity" using probe_path_bound assms by (cases capacity) auto
  with i assms show ?thesis by simp
qed

lemma AddEntry_spec_length:
  "length (fst (AddEntry_spec eq entries capacity key val)) = length entries"
  by (simp add: AddEntry_spec_def add_scan_length)

lemma AddEntry_spec_live:
  assumes "length entries = capacity" "0 < capacity"
  shows "live_count (fst (AddEntry_spec eq entries capacity key val))
         \<le> live_count entries + (if snd (AddEntry_spec eq entries capacity key val) then 1 else 0)"
  unfolding AddEntry_spec_def
  by (rule add_scan_live) (use assms probe_path_bound in auto)

lemma add_then_get:
  assumes len: "length (Entries d) = Capacity d"
      and room: "live_count (Entries d) < Capacity d"
      and cnt: "live_count (Entries d) \<le> Count d"
      and key: "\<not> CK_IS_UNDEFINED key" "eq key key"
  shows "\<exists>r. CkpDictAddEntry eq (Entries d) (Capacity d) key val = Inr r
           \<and> CkpDictGet eq (if snd r then d\<lparr>Entries := fst r, Count := Count d + 1\<rparr>
                             else d\<lparr>Entries := fst r\<rparr>) key = Inr val
           \<and> dict_inv (if snd r then d\<lparr>Entries := fst r, Count := Count d + 1\<rparr>
                        else d\<lparr>Entries := fst r\<rparr>)"
proof -
  let ?cap = "Capacity d"
  let ?start = "unat (CkpHashValue key) mod ?cap"
  let ?path = "probe_path ?start ?cap"
  let ?r = "AddEntry_spec eq (Entries d) ?cap key val"
  let ?d' = "if snd ?r then d\<lparr>Entries := fst ?r, Count := Count d + 1\<rparr> else d\<lparr>Entries := fst ?r\<rparr>"
  have cap: "0 < ?cap" using room by simp
  then have start: "?start < ?cap" by simp
  have add: "CkpDictAddEntry eq (Entries d) ?cap key val = Inr ?r"
    using len cap by (simp add: AddEntry_refines)
  from add_scan_finds [of "Entries d" ?cap ?start eq key] len room start
  obtain i where i: "i < length (Entries d)"
      "List.find (add_stop eq (Entries d) key) ?path = Some i" by auto
  from add_scan_stored [OF i(2) i(1) key, of val]
  have st: "find_scan eq (fst ?r) key ?path = Some i" "Value (fst ?r ! i) = val"
      "slot_Live (fst ?r ! i)"
    by (simp_all add: AddEntry_spec_def)
  have rl: "length (fst ?r) = ?cap" using len by (simp add: AddEntry_spec_length)
  have rc: "live_count (fst ?r) \<le> live_count (Entries d) + (if snd ?r then 1 else 0)"
    using AddEntry_spec_live [OF len cap] .
  have pos: "0 < live_count (fst ?r)" using live_count_pos [of i "fst ?r"] i st rl len by simp
  have inv: "dict_inv ?d'" using rl rc cnt by (auto simp: dict_inv_def)
  have nz: "Count ?d' \<noteq> 0" using pos rc cnt by (auto split: if_splits)
  have "Find_spec eq ?d' key = Some i"
    using nz st(1) by (auto simp: Find_spec_def)
  moreover have "length (Entries ?d') = Capacity ?d'" using rl by simp
  ultimately have "CkpDictFindEntry eq ?d' key = Inr (Some i)"
    using nz cap by (simp only: FindEntry_refines) auto
  then have "CkpDictGet eq ?d' key = Inr val"
    using st(2) by (auto simp: CkpDictGet_def)
  with add inv show ?thesis by blast
qed

subsection \<open>Resizing\<close>

lemma resize_loop_ok:
  assumes "length (Entries dict) = Capacity dict" "length newEntries = newCapacity"
          "0 < newCapacity" "index \<le> Capacity dict"
  shows "\<exists>res. CkpDictResize_loop eq dict newEntries newCapacity index = Inr res
           \<and> length res = newCapacity
           \<and> live_count res \<le> live_count newEntries + live_count (drop index (Entries dict))"
  using assms
proof (induction eq dict newEntries newCapacity index rule: CkpDictResize_loop.induct)
  case (1 eq dict newEntries newCapacity index)
  show ?case
  proof (cases "index < Capacity dict")
    case False
    with "1.prems" show ?thesis
      by (subst CkpDictResize_loop.simps) (simp add: live_count_def)
  next
    case True
    let ?old = "Entries dict ! index"
    have len: "index < length (Entries dict)" using True "1.prems" by simp
    have nxt: "index + 1 \<le> Capacity dict" using True by simp
    note dr = live_count_drop [OF len]
    show ?thesis
    proof (cases "CK_IS_UNDEFINED (Key ?old)")
      case undef: True
      from "1.IH"(2) [OF True len refl _ "1.prems"(1,2,3) nxt] undef
      obtain res where res: "CkpDictResize_loop eq dict newEntries newCapacity (index + 1) = Inr res"
          "length res = newCapacity"
          "live_count res \<le> live_count newEntries + live_count (drop (index + 1) (Entries dict))"
        by auto
      have "CkpDictResize_loop eq dict newEntries newCapacity index =
            CkpDictResize_loop eq dict newEntries newCapacity (index + 1)"
        using True len undef by (subst CkpDictResize_loop.simps) (simp add: Let_def)
      with res dr show ?thesis by simp
    next
      case live: False
      let ?r = "AddEntry_spec eq newEntries newCapacity (Key ?old) (Value ?old)"
      have add: "CkpDictAddEntry eq newEntries newCapacity (Key ?old) (Value ?old) = Inr ?r"
        using "1.prems" by (simp add: AddEntry_refines)
      have rl: "length (fst ?r) = newCapacity"
        using "1.prems" by (simp add: AddEntry_spec_length)
      have rc: "live_count (fst ?r) \<le> live_count newEntries + 1"
        using AddEntry_spec_live [OF "1.prems"(2,3), of eq "Key ?old" "Value ?old"]
        by (simp split: if_splits)
      from "1.IH"(1) [OF True len refl live add "1.prems"(1) rl "1.prems"(3) nxt]
      obtain res where res: "CkpDictResize_loop eq dict (fst ?r) newCapacity (index + 1) = Inr res"
          "length res = newCapacity"
          "live_count res \<le> live_count (fst ?r) + live_count (drop (index + 1) (Entries dict))"
        by auto
      have "CkpDictResize_loop eq dict newEntries newCapacity index =
            CkpDictResize_loop eq dict (fst ?r) newCapacity (index + 1)"
        using True len live add by (subst CkpDictResize_loop.simps) (simp add: Let_def)
      with res dr rc live show ?thesis by (simp add: slot_Live_def)
    qed
  qed
qed

lemma Resize_ok:
  assumes "length (Entries dict) = Capacity dict" "0 < newCapacity"
          "asserts \<longrightarrow> Count dict < newCapacity"
  shows "\<exists>d. CkpDictResize eq asserts True dict newCapacity = Inr d
           \<and> Capacity d = newCapacity \<and> Count d = Count dict
           \<and> length (Entries d) = newCapacity
           \<and> live_count (Entries d) \<le> live_count (Entries dict)"
proof -
  from resize_loop_ok [OF assms(1) _ assms(2), of "replicate newCapacity empty_entry" 0 eq]
  obtain res where "CkpDictResize_loop eq dict (replicate newCapacity empty_entry) newCapacity 0 = Inr res"
      "length res = newCapacity" "live_count res \<le> live_count (Entries dict)"
    by (auto simp: live_count_replicate_empty)
  with assms(3) show ?thesis
    by (auto simp: CkpDictResize_def empty_entry_def)
qed

lemma Resize_result:
  assumes "length (Entries dict) = Capacity dict" "0 < newCapacity"
          "asserts \<longrightarrow> Count dict < newCapacity"
  shows "\<exists>d. CkpDictResize eq asserts alloc dict newCapacity = Inr d
           \<and> Capacity d = (if alloc then newCapacity else Capacity dict)
           \<and> Count d = Count dict
           \<and> length (Entries d) = Capacity d
           \<and> live_count (Entries d) \<le> live_count (Entries dict)"
proof (cases alloc)
  case True
  with Resize_ok [OF assms, of eq] show ?thesis by auto
next
  case False
  with assms show ?thesis by (simp add: CkpDictResize_def)
qed

subsection \<open>Set\<close>

lemma load_le_capacity: "capacity * DICT_LOAD_FACTOR div 1024 \<le> capacity"
  by (simp add: DICT_LOAD_FACTOR_def)

lemma Set_first_stage:
  assumes inv: "dict_inv dict" and asrt: "asserts \<longrightarrow> Count dict \<le> Capacity dict"
  shows "\<exists>d. (if Count dict + 1 > Capacity dict * DICT_LOAD_FACTOR div 1024
              then CkpDictResize eq asserts True dict
                     (if Capacity dict * DICT_GROW_FACTOR < DICT_MIN_CAPACITY
                      then DICT_MIN_CAPACITY else Capacity dict * DICT_GROW_FACTOR)
              else Inr dict) = Inr d
           \<and> length (Entries d) = Capacity d
           \<and> live_count (Entries d) < Capacity d
           \<and> live_count (Entries d) \<le> Count d
           \<and> (asserts \<longrightarrow> Count d < Capacity d)"
proof -
  let ?grow = "Count dict + 1 > Capacity dict * DICT_LOAD_FACTOR div 1024"
  let ?new = "if Capacity dict * DICT_GROW_FACTOR < DICT_MIN_CAPACITY
              then DICT_MIN_CAPACITY else Capacity dict * DICT_GROW_FACTOR"
  have len: "length (Entries dict) = Capacity dict"
   and cnt: "live_count (Entries dict) \<le> Count dict"
    using inv by (simp_all add: dict_inv_def)
  show ?thesis
  proof (cases ?grow)
    case False
    then have "Count dict < Capacity dict"
      using load_le_capacity [of "Capacity dict"] by simp
    with False len cnt show ?thesis by simp
  next
    case True
    have new: "0 < ?new" "Capacity dict < ?new"
      by (simp_all add: DICT_GROW_FACTOR_def DICT_MIN_CAPACITY_def)
    have pre: "asserts \<longrightarrow> Count dict < ?new"
    proof
      assume asserts
      with asrt have "Count dict \<le> Capacity dict" by simp
      then show "Count dict < ?new" using new(2) by (rule le_less_trans)
    qed
    from Resize_ok [OF len new(1) pre, of eq]
    obtain d where d: "CkpDictResize eq asserts True dict ?new = Inr d" "Capacity d = ?new"
        "Count d = Count dict" "length (Entries d) = ?new"
        "live_count (Entries d) \<le> live_count (Entries dict)" by blast
    have "live_count (Entries dict) \<le> Capacity dict"
      using live_count_le_length [of "Entries dict"] len by simp
    with d new(2) cnt True pre show ?thesis by auto
  qed
qed

lemma Set_then_Get:
  assumes inv: "dict_inv dict"
      and asrt: "asserts \<longrightarrow> Count dict \<le> Capacity dict"
      and key: "\<not> CK_IS_UNDEFINED key" "eq key key"
  shows "\<exists>d'. CkpDictSet eq asserts True dict key val = Inr d'
           \<and> CkpDictGet eq d' key = Inr val \<and> dict_inv d'"
proof -
  from Set_first_stage [OF inv asrt, of eq]
  obtain d where d: "(if Count dict + 1 > Capacity dict * DICT_LOAD_FACTOR div 1024
              then CkpDictResize eq asserts True dict
                     (if Capacity dict * DICT_GROW_FACTOR < DICT_MIN_CAPACITY
                      then DICT_MIN_CAPACITY else Capacity dict * DICT_GROW_FACTOR)
              else Inr dict) = Inr d"
      "length (Entries d) = Capacity d" "live_count (Entries d) < Capacity d"
      "live_count (Entries d) \<le> Count d" by blast
  from add_then_get [where d = d and eq = eq and key = key and val = val, OF d(2,3,4) key]
  obtain r where r: "CkpDictAddEntry eq (Entries d) (Capacity d) key val = Inr r"
      "CkpDictGet eq (if snd r then d\<lparr>Entries := fst r, Count := Count d + 1\<rparr>
                      else d\<lparr>Entries := fst r\<rparr>) key = Inr val"
      "dict_inv (if snd r then d\<lparr>Entries := fst r, Count := Count d + 1\<rparr>
                 else d\<lparr>Entries := fst r\<rparr>)" by blast
  have "CkpDictSet eq asserts True dict key val =
        Inr (if snd r then d\<lparr>Entries := fst r, Count := Count d + 1\<rparr> else d\<lparr>Entries := fst r\<rparr>)"
    unfolding CkpDictSet_def using d(1) r(1) by simp
  with r show ?thesis by simp
qed

lemma Set_inv:
  assumes inv: "dict_inv dict" and asrt: "asserts \<longrightarrow> Count dict \<le> Capacity dict"
      and set: "CkpDictSet eq asserts True dict key val = Inr d'"
  shows "dict_inv d' \<and> (asserts \<longrightarrow> Count d' \<le> Capacity d')"
proof -
  from Set_first_stage [OF inv asrt, of eq]
  obtain d where d: "(if Count dict + 1 > Capacity dict * DICT_LOAD_FACTOR div 1024
              then CkpDictResize eq asserts True dict
                     (if Capacity dict * DICT_GROW_FACTOR < DICT_MIN_CAPACITY
                      then DICT_MIN_CAPACITY else Capacity dict * DICT_GROW_FACTOR)
              else Inr dict) = Inr d"
      "length (Entries d) = Capacity d" "live_count (Entries d) < Capacity d"
      "live_count (Entries d) \<le> Count d" "asserts \<longrightarrow> Count d < Capacity d" by blast
  let ?r = "AddEntry_spec eq (Entries d) (Capacity d) key val"
  have cap: "0 < Capacity d" using d(3) by simp
  have add: "CkpDictAddEntry eq (Entries d) (Capacity d) key val = Inr ?r"
    using d(2) cap by (simp add: AddEntry_refines)
  have d': "d' = (if snd ?r then d\<lparr>Entries := fst ?r, Count := Count d + 1\<rparr>
                  else d\<lparr>Entries := fst ?r\<rparr>)"
    using set unfolding CkpDictSet_def d(1) by (simp add: add)
  have rl: "length (fst ?r) = Capacity d" using d(2) by (simp add: AddEntry_spec_length)
  have rc: "live_count (fst ?r) \<le> live_count (Entries d) + (if snd ?r then 1 else 0)"
    using AddEntry_spec_live [OF d(2) cap] .
  show ?thesis using rl rc d(4,5) by (auto simp: d' dict_inv_def)
qed

text \<open>
  The growth step alone keeps the load bound: a set on a dictionary with \<open>Count \<le> Capacity\<close>
  ends with \<open>Count \<le> Capacity * 768 div 1024\<close>.
\<close>

lemma grow_load_bound:
  assumes "count \<le> capacity"
  shows "count + 1 \<le> (if capacity * DICT_GROW_FACTOR < DICT_MIN_CAPACITY
                       then DICT_MIN_CAPACITY else capacity * DICT_GROW_FACTOR)
                      * DICT_LOAD_FACTOR div 1024"
  using assms by (auto simp: DICT_GROW_FACTOR_def DICT_MIN_CAPACITY_def DICT_LOAD_FACTOR_def)

lemma Set_load_bound:
  assumes inv: "dict_inv dict" and le: "Count dict \<le> Capacity dict"
      and set: "CkpDictSet eq asserts True dict key val = Inr d'"
  shows "Count d' \<le> Capacity d' * DICT_LOAD_FACTOR div 1024"
proof -
  let ?grow = "Count dict + 1 > Capacity dict * DICT_LOAD_FACTOR div 1024"
  let ?new = "if Capacity dict * DICT_GROW_FACTOR < DICT_MIN_CAPACITY
              then DICT_MIN_CAPACITY else Capacity dict * DICT_GROW_FACTOR"
  let ?first = "if ?grow then CkpDictResize eq asserts True dict ?new else Inr dict"
  have len: "length (Entries dict) = Capacity dict" using inv by (simp add: dict_inv_def)
  have "\<exists>d. ?first = Inr d \<and> Count d + 1 \<le> Capacity d * DICT_LOAD_FACTOR div 1024"
  proof (cases ?grow)
    case False
    then show ?thesis by simp
  next
    case True
    have new: "0 < ?new" "Capacity dict < ?new"
      by (simp_all add: DICT_GROW_FACTOR_def DICT_MIN_CAPACITY_def)
    have pre: "asserts \<longrightarrow> Count dict < ?new" using le new(2) by simp
    from Resize_ok [OF len new(1) pre, of eq]
    obtain d where d: "CkpDictResize eq asserts True dict ?new = Inr d" "Capacity d = ?new"
        "Count d = Count dict" by blast
    have "Count d + 1 \<le> Capacity d * DICT_LOAD_FACTOR div 1024"
      unfolding d(2,3) by (rule grow_load_bound [OF le])
    with True d(1) show ?thesis by simp
  qed
  then obtain d where d: "?first = Inr d"
      "Count d + 1 \<le> Capacity d * DICT_LOAD_FACTOR div 1024" by blast
  from set obtain r where "d' = (if snd r then d\<lparr>Entries := fst r, Count := Count d + 1\<rparr>
                                  else d\<lparr>Entries := fst r\<rparr>)"
    unfolding CkpDictSet_def d(1) by (auto split: sum.splits)
  with d(2) show ?thesis by auto
qed

subsection \<open>Remove\<close>

lemma Remove_unfold:
  "CkpDictRemove eq asserts alloc dict key =
     (case CkpDictFindEntry eq dict key of
        Inl e \<Rightarrow> Inl e
      | Inr None \<Rightarrow> Inr (CK_NULL_VALUE, dict)
      | Inr (Some i) \<Rightarrow>
          if shrink_wanted (tombstoned dict i) \<and>
             shrink_capacity (tombstoned dict i) \<noteq> Capacity (tombstoned dict i)
          then (case CkpDictResize eq asserts alloc (tombstoned dict i)
                       (shrink_capacity (tombstoned dict i)) of
                  Inl e \<Rightarrow> Inl e
                | Inr d' \<Rightarrow> Inr (Value (Entries dict ! i), d'))
          else Inr (Value (Entries dict ! i), tombstoned dict i))"
  by (simp add: CkpDictRemove_def tombstoned_def shrink_wanted_def shrink_capacity_def Let_def
           split: sum.splits option.splits)

lemma FindEntry_Some:
  assumes len: "length (Entries dict) = Capacity dict"
      and found: "CkpDictFindEntry eq dict key = Inr (Some i)"
  shows "i < Capacity dict" "slot_Live (Entries dict ! i)" "eq (Key (Entries dict ! i)) key"
        "Count dict \<noteq> 0"
        "List.find (find_stop eq (Entries dict) key)
           (probe_path (unat (CkpHashValue key) mod Capacity dict) (Capacity dict)) = Some i"
proof -
  let ?path = "probe_path (unat (CkpHashValue key) mod Capacity dict) (Capacity dict)"
  have spec: "Find_spec eq dict key = Some i" and cap: "0 < Capacity dict \<or> Count dict = 0"
    using found by (auto simp: FindEntry_refines [OF len] split: if_splits)
  then show nz: "Count dict \<noteq> 0" by (auto simp: Find_spec_def split: if_splits)
  with cap have c: "0 < Capacity dict" by simp
  from spec nz have f: "List.find (find_stop eq (Entries dict) key) ?path = Some i"
    and ne: "\<not> slot_Empty (Entries dict ! i)"
    by (auto simp: Find_spec_def find_scan_def split: option.splits if_splits)
  show "List.find (find_stop eq (Entries dict) key) ?path = Some i" by (rule f)
  from f have "i \<in> set ?path" "find_stop eq (Entries dict) key i"
    using find_Some_in by fastforce+
  with ne c show "i < Capacity dict" "slot_Live (Entries dict ! i)"
      "eq (Key (Entries dict ! i)) key"
    using probe_path_bound by (auto simp: find_stop_def)
qed

lemma tombstoned_simps:
  "Capacity (tombstoned dict i) = Capacity dict"
  "Count (tombstoned dict i) = Count dict - 1"
  "length (Entries (tombstoned dict i)) = length (Entries dict)"
  by (simp_all add: tombstoned_def)

lemma tombstoned_slot:
  assumes "i < length (Entries dict)"
  shows "slot_Tombstone (Entries (tombstoned dict i) ! i)"
  using assms
  by (simp add: tombstoned_def slot_Tombstone_def CK_UNDEFINED_VALUE_def CK_TRUE_VALUE_def)

lemma tombstoned_live:
  assumes "i < length (Entries dict)" "slot_Live (Entries dict ! i)"
  shows "live_count (Entries (tombstoned dict i)) + 1 = live_count (Entries dict)"
  using live_count_update [OF assms(1),
          of "(Entries dict ! i)\<lparr>Key := CK_UNDEFINED_VALUE, Value := CK_TRUE_VALUE\<rparr>"] assms(2)
  by (simp add: tombstoned_def slot_Live_def CK_UNDEFINED_VALUE_def)

lemma shrink_capacity_pos: "0 < shrink_capacity d"
  by (simp add: shrink_capacity_def DICT_MIN_CAPACITY_def DICT_GROW_FACTOR_def)

lemma Remove_absent:
  assumes "CkpDictFindEntry eq dict key = Inr None"
  shows "CkpDictRemove eq asserts alloc dict key = Inr (CK_NULL_VALUE, dict)"
  using assms by (simp add: CkpDictRemove_def)

lemma Remove_present:
  assumes len: "length (Entries dict) = Capacity dict"
      and found: "CkpDictFindEntry eq dict key = Inr (Some i)"
      and asrt: "asserts \<longrightarrow> Count dict \<le> shrink_capacity dict"
  shows "\<exists>d'. CkpDictRemove eq asserts alloc dict key = Inr (Value (Entries dict ! i), d')
           \<and> Count d' = Count dict - 1
           \<and> length (Entries d') = Capacity d'
           \<and> live_count (Entries d') + 1 \<le> live_count (Entries dict)"
proof -
  let ?t = "tombstoned dict i"
  note fs = FindEntry_Some [OF len found]
  have i: "i < length (Entries dict)" using fs(1) len by simp
  have tl: "length (Entries ?t) = Capacity ?t" using len by (simp add: tombstoned_simps)
  have live: "live_count (Entries ?t) + 1 = live_count (Entries dict)"
    using tombstoned_live [OF i fs(2)] .
  show ?thesis
  proof (cases "shrink_wanted ?t \<and> shrink_capacity ?t \<noteq> Capacity ?t")
    case False
    have "CkpDictRemove eq asserts alloc dict key = Inr (Value (Entries dict ! i), ?t)"
      by (simp only: Remove_unfold found sum.case option.case False if_False)
    with tl live show ?thesis by (simp add: tombstoned_simps)
  next
    case True
    have sc: "shrink_capacity ?t = shrink_capacity dict"
      by (simp add: shrink_capacity_def tombstoned_simps)
    have "asserts \<longrightarrow> Count ?t < shrink_capacity ?t"
      using asrt fs(4) by (auto simp: sc tombstoned_simps)
    from Resize_result [OF tl shrink_capacity_pos this, of eq alloc]
    obtain d where d: "CkpDictResize eq asserts alloc ?t (shrink_capacity ?t) = Inr d"
        "Count d = Count ?t" "length (Entries d) = Capacity d"
        "live_count (Entries d) \<le> live_count (Entries ?t)" by blast
    have "CkpDictRemove eq asserts alloc dict key = Inr (Value (Entries dict ! i), d)"
      by (simp only: Remove_unfold found sum.case option.case True simp_thms if_True d(1))
    with d live show ?thesis by (simp add: tombstoned_simps)
  qed
qed

lemma Find_through_tombstone:
  assumes len: "length (Entries dict) = Capacity dict"
      and a: "CkpDictFindEntry eq dict a = Inr (Some i)"
      and b: "CkpDictFindEntry eq dict b = Inr (Some j)"
      and ij: "i \<noteq> j"
      and cnt: "live_count (Entries dict) \<le> Count dict"
  shows "CkpDictFindEntry eq (tombstoned dict i) b = Inr (Some j)"
proof -
  let ?t = "tombstoned dict i"
  let ?E = "Entries dict"
  let ?path = "probe_path (unat (CkpHashValue b) mod Capacity dict) (Capacity dict)"
  note fa = FindEntry_Some [OF len a]
  note fb = FindEntry_Some [OF len b]
  have i: "i < length ?E" and j: "j < length ?E" using fa(1) fb(1) len by simp_all
  have same: "\<And>x. x \<noteq> i \<Longrightarrow> Entries ?t ! x = ?E ! x"
    by (simp add: tombstoned_def)
  have ti: "\<not> find_stop eq (Entries ?t) b i"
    using tombstoned_slot [OF i]
    by (simp add: find_stop_def slot_Tombstone_def slot_Empty_def slot_Live_def)
  have "List.find (find_stop eq (Entries ?t) b) ?path = Some j"
  proof (rule find_Some_weaken [where P = "find_stop eq ?E b"
                                 and Q = "find_stop eq (Entries ?t) b"])
    show "List.find (find_stop eq ?E b) ?path = Some j" by (rule fb(5))
    show "find_stop eq (Entries ?t) b j"
      using fb(2,3) same [of j] ij by (simp add: find_stop_def)
    fix x assume "x \<noteq> j" "find_stop eq (Entries ?t) b x"
    then show "find_stop eq ?E b x"
      using ti same [of x] by (cases "x = i") (auto simp: find_stop_def)
  qed
  moreover have "\<not> slot_Empty (Entries ?t ! j)"
    using fb(2) same [of j] ij by (simp add: slot_Empty_def slot_Live_def)
  moreover have "Count ?t \<noteq> 0"
  proof -
    have "slot_Live (Entries ?t ! j)" using fb(2) same [of j] ij by simp
    then have "0 < live_count (Entries ?t)"
      using live_count_pos [of j "Entries ?t"] j by (simp add: tombstoned_simps)
    then show ?thesis using tombstoned_live [OF i fa(2)] cnt by (simp add: tombstoned_simps)
  qed
  ultimately have "Find_spec eq ?t b = Some j"
    by (simp add: Find_spec_def find_scan_def tombstoned_simps)
  moreover have "length (Entries ?t) = Capacity ?t" using len by (simp add: tombstoned_simps)
  moreover have "0 < Capacity ?t" using fb(1) by (simp add: tombstoned_simps)
  ultimately show ?thesis by (simp add: FindEntry_refines)
qed

lemma Remove_no_shrink:
  assumes "CkpDictFindEntry eq dict key = Inr (Some i)" "Capacity dict \<le> DICT_MIN_CAPACITY"
  shows "CkpDictRemove eq asserts alloc dict key = Inr (Value (Entries dict ! i), tombstoned dict i)"
  using assms by (simp add: Remove_unfold shrink_wanted_def tombstoned_simps)

lemma Remove_inv:
  assumes inv: "dict_inv dict" and asrt: "asserts \<longrightarrow> Count dict \<le> Capacity dict"
      and rem: "CkpDictRemove eq asserts alloc dict key = Inr r"
  shows "dict_inv (snd r) \<and> (asserts \<longrightarrow> Count (snd r) \<le> Capacity (snd r))"
proof -
  have len: "length (Entries dict) = Capacity dict"
   and cnt: "live_count (Entries dict) \<le> Count dict"
    using inv by (simp_all add: dict_inv_def)
  from rem obtain res where res: "CkpDictFindEntry eq dict key = Inr res"
    by (cases "CkpDictFindEntry eq dict key") (simp_all add: CkpDictRemove_def)
  show ?thesis
  proof (cases res)
    case None
    with res rem inv asrt show ?thesis by (auto simp: CkpDictRemove_def)
  next
    case (Some i)
    let ?t = "tombstoned dict i"
    have found: "CkpDictFindEntry eq dict key = Inr (Some i)" using res Some by simp
    note fs = FindEntry_Some [OF len found]
    have i: "i < length (Entries dict)" using fs(1) len by simp
    have tl: "length (Entries ?t) = Capacity ?t" using len by (simp add: tombstoned_simps)
    have live: "live_count (Entries ?t) + 1 = live_count (Entries dict)"
      using tombstoned_live [OF i fs(2)] .
    have tinv: "dict_inv ?t \<and> (asserts \<longrightarrow> Count ?t \<le> Capacity ?t)"
      using tl live cnt asrt by (auto simp: dict_inv_def tombstoned_simps)
    show ?thesis
    proof (cases "shrink_wanted ?t \<and> shrink_capacity ?t \<noteq> Capacity ?t")
      case False
      have "CkpDictRemove eq asserts alloc dict key = Inr (Value (Entries dict ! i), ?t)"
        by (simp only: Remove_unfold found sum.case option.case False if_False)
      with rem tinv show ?thesis by auto
    next
      case True
      have run: "CkpDictRemove eq asserts alloc dict key =
                 (case CkpDictResize eq asserts alloc ?t (shrink_capacity ?t) of
                    Inl e \<Rightarrow> Inl e | Inr d' \<Rightarrow> Inr (Value (Entries dict ! i), d'))"
        by (simp only: Remove_unfold found sum.case option.case True simp_thms if_True)
      have pre: "asserts \<longrightarrow> Count ?t < shrink_capacity ?t"
        using rem run by (auto simp: CkpDictResize_def split: if_splits)
      from Resize_result [OF tl shrink_capacity_pos pre, of eq alloc]
      obtain d where d: "CkpDictResize eq asserts alloc ?t (shrink_capacity ?t) = Inr d"
          "Capacity d = (if alloc then shrink_capacity ?t else Capacity ?t)"
          "Count d = Count ?t" "length (Entries d) = Capacity d"
          "live_count (Entries d) \<le> live_count (Entries ?t)" by blast
      have "snd r = d" using rem run d(1) by auto
      then show ?thesis using d tinv pre by (auto simp: dict_inv_def)
    qed
  qed
qed

subsection \<open>Reachable dictionaries\<close>

text \<open>
  Every dictionary reached from the created one by sets and removes has an array of
  \<open>Capacity\<close> slots with at most \<open>Count\<close> of them in use; where assertions are compiled in
  (a run that fails one stops there), \<open>Count \<le> Capacity\<close> holds as well.
\<close>

lemma CkpDictCreate_empty: "CkpDictCreate True = Some empty_dict"
  by (simp add: CkpDictCreate_def empty_dict_def)

lemma empty_dict_inv: "dict_inv empty_dict" "Count empty_dict \<le> Capacity empty_dict"
  by (simp_all add: dict_inv_def empty_dict_def live_count_def)

lemma run_ops_inv:
  assumes "dict_inv dict" "asserts \<longrightarrow> Count dict \<le> Capacity dict"
          "run_ops eq asserts dict ops = Inr d"
  shows "dict_inv d \<and> (asserts \<longrightarrow> Count d \<le> Capacity d)"
  using assms
proof (induction ops arbitrary: dict)
  case Nil
  then show ?case by simp
next
  case (Cons op ops)
  show ?case
  proof (cases op)
    case (OpSet key val)
    with Cons.prems(3) obtain d1 where d1: "CkpDictSet eq asserts True dict key val = Inr d1"
        "run_ops eq asserts d1 ops = Inr d"
      by (auto split: sum.splits)
    from Set_inv [OF Cons.prems(1,2) d1(1)] Cons.IH [OF _ _ d1(2)] show ?thesis by blast
  next
    case (OpRemove key)
    with Cons.prems(3) obtain r where r: "CkpDictRemove eq asserts True dict key = Inr r"
        "run_ops eq asserts (snd r) ops = Inr d"
      by (auto split: sum.splits)
    from Remove_inv [OF Cons.prems(1,2) r(1)] Cons.IH [OF _ _ r(2)] show ?thesis by blast
  qed
qed

text \<open>
  With assertions compiled in, a run that reaches a dictionary has passed every assertion on
  the way; the growing resize of the next set then meets its precondition and the set ends
  within the load bound.
\<close>

lemma reachable_checked_grow_precondition:
  assumes "run_ops eq True empty_dict ops = Inr dict"
  shows "Count dict < (if Capacity dict * DICT_GROW_FACTOR < DICT_MIN_CAPACITY
                       then DICT_MIN_CAPACITY else Capacity dict * DICT_GROW_FACTOR)"
proof -
  from run_ops_inv [OF empty_dict_inv(1) _ assms(1)] empty_dict_inv(2)
  have "Count dict \<le> Capacity dict" by simp
  then show ?thesis by (simp add: DICT_GROW_FACTOR_def DICT_MIN_CAPACITY_def)
qed

lemma reachable_checked_Set_load_bound:
  assumes "run_ops eq True empty_dict ops = Inr dict"
      and "CkpDictSet eq True True dict key val = Inr d'"
  shows "Count d' \<le> Capacity d' * DICT_LOAD_FACTOR div 1024"
proof -
  from run_ops_inv [OF empty_dict_inv(1) _ assms(1)] empty_dict_inv(2)
  have "dict_inv dict" "Count dict \<le> Capacity dict" by simp_all
  then show ?thesis using assms(2) by (rule Set_load_bound)
qed

subsection \<open>Evaluating the operations on concrete dictionaries\<close>

lemma replicate_numeral: "replicate (numeral k) x = x # replicate (pred_numeral k) x"
  by (simp add: numeral_eq_Suc)

lemma list_update_Cons_numeral: "(x # xs)[numeral k := y] = x # xs[pred_numeral k := y]"
  by (simp add: numeral_eq_Suc)

lemma entry_update_all: "(e::CK_DICT_ENTRY)\<lparr>Key := k, Value := v\<rparr> = \<lparr>Key = k, Value = v\<rparr>"
  by (cases e) simp

lemma entry_update_value: "(e::CK_DICT_ENTRY)\<lparr>Value := v\<rparr> = \<lparr>Key = Key e, Value = v\<rparr>"
  by (cases e) simp

lemmas dict_eval =
  CkpDictSet_def CkpDictRemove_def CkpDictResize_def CkpDictAddEntry_def CkpDictFindEntry_def
  CkpDictGet_def CkpDictAddEntry_loop.simps CkpDictFindEntry_loop.simps CkpDictResize_loop.simps
  DICT_LOAD_FACTOR_def DICT_GROW_FACTOR_def DICT_SHRINK_FACTOR_def DICT_MIN_CAPACITY_def
  CK_UNDEFINED_VALUE_def CK_NULL_VALUE_def CK_TRUE_VALUE_def empty_dict_def int_key_def Let_def
  replicate_numeral list_update_Cons_numeral set_ops_def remove_ops_def summary_def
  empty_entry_def tombstone_entry_def live_entry_def
  find_after_def get_after_def remove_after_def

lemma collision_dict_facts:
  "dict_inv collision_dict"
  "length (Entries collision_dict) = Capacity collision_dict"
  "Count collision_dict \<le> Capacity collision_dict"
  "Count collision_dict \<le> shrink_capacity collision_dict"
  "Capacity collision_dict \<le> DICT_MIN_CAPACITY"
  by (simp_all add: collision_dict_def dict_inv_def live_count_def slot_Live_def
        shrink_capacity_def dict_eval)

section \<open>The claims\<close>

subsection \<open>C1: the shrink test of remove\<close>

text \<open>
  Claim C1 says that \<^verbatim>\<open>CkpDictRemove\<close> shrinks exactly when \<open>Capacity > 16\<close> and the quotient
  \<open>Count / (Capacity / 3 * 768 / 1024)\<close> is zero. The condition in the code is the quotient
  itself, so it shrinks when the quotient is not zero. After thirteen distinct keys have been
  set the table has 32 slots; removing one of them leaves twelve entries, the quotient is
  \<open>12 div 7 = 1\<close>, and the table is halved to 16 slots. In a 32-slot table with a single
  entry the quotient after the removal is \<open>0 div 7 = 0\<close> and the capacity stays at 32.
\<close>

theorem CkpDictRemove_shrinks_on_nonzero_quotient:
  "summary (run_ops (=) True empty_dict (set_ops [0, 1, 2, 3, 4, 5, 6, 7, 8, 9, 10, 11, 12]))
     = Inr (13, 32)
   \<and> (13 - 1) div (32 div DICT_SHRINK_FACTOR * DICT_LOAD_FACTOR div 1024) = (1::nat)
   \<and> summary (run_ops (=) True empty_dict
                (set_ops [0, 1, 2, 3, 4, 5, 6, 7, 8, 9, 10, 11, 12] @ remove_ops [0]))
     = Inr (12, 16)
   \<and> (1 - 1) div (32 div DICT_SHRINK_FACTOR * DICT_LOAD_FACTOR div 1024) = (0::nat)
   \<and> summary (run_ops (=) True sparse_dict (remove_ops [0])) = Inr (0, 32)"
  by (simp add: dict_eval sparse_dict_def)

subsection \<open>C2: insertion into a raw array\<close>

text \<open>
  Claim C2 says that \<^verbatim>\<open>CkpDictAddEntry\<close> skips deleted slots, writes a new key into the
  first empty slot of its probe path, and overwrites the value of a slot in use with an equal
  key that is reached before any empty slot, reporting not new. The code tests only the key
  of a slot, so it stops at a deleted slot without looking for the key further along the
  path. In \<open>deleted_first\<close> a key that hashes to slot 0 is written into the deleted slot 0 while
  slot 1, the first empty slot, stays empty. In \<open>deleted_then_live\<close>, the array that set 0,
  set 16, remove 0 leave behind, key 16 is in use in slot 1 behind the deleted slot 0:
  inserting key 16 again writes it into slot 0 and reports new, slot 1 keeps the old value,
  \<open>Count\<close> becomes 2 for one key, the next remove of key 16 returns the new value 7 and the get
  after it still finds key 16 with the old value 116.
\<close>

theorem CkpDictAddEntry_duplicates_key_behind_deleted_slot:
  "slot_Tombstone (deleted_first ! 0) \<and> slot_Empty (deleted_first ! 1)
   \<and> CkpDictAddEntry (=) deleted_first 16 CK_NULL_VALUE (int_key 7)
       = Inr (\<lparr>Key = CK_NULL_VALUE, Value = int_key 7\<rparr> # replicate 15 empty_entry, True)
   \<and> map_sum id Entries (run_ops (=) True empty_dict (set_ops [0, 16] @ remove_ops [0]))
       = Inr deleted_then_live
   \<and> slot_Tombstone (deleted_then_live ! 0)
   \<and> deleted_then_live ! 1 = \<lparr>Key = int_key 16, Value = int_key 116\<rparr>
   \<and> CkpDictAddEntry (=) deleted_then_live 16 (int_key 16) (int_key 7)
       = Inr (\<lparr>Key = int_key 16, Value = int_key 7\<rparr>
                # \<lparr>Key = int_key 16, Value = int_key 116\<rparr> # replicate 14 empty_entry, True)
   \<and> summary (run_ops (=) True empty_dict
                (set_ops [0, 16] @ remove_ops [0] @ [OpSet (int_key 16) (int_key 7)]))
       = Inr (2, 16)
   \<and> remove_after (=) True
         (run_ops (=) True empty_dict
            (set_ops [0, 16] @ remove_ops [0] @ [OpSet (int_key 16) (int_key 7)]))
         (int_key 16)
       = Inr (int_key 7)
   \<and> get_after (=)
         (run_ops (=) True empty_dict
            (set_ops [0, 16] @ remove_ops [0] @ [OpSet (int_key 16) (int_key 7)]
             @ remove_ops [16]))
         (int_key 16)
       = Inr (int_key 116)"
  by (simp add: dict_eval deleted_first_def deleted_then_live_def slot_Tombstone_def
        slot_Empty_def)

subsection \<open>C3: the precondition of resize at its call sites\<close>

text \<open>
  Claim C3 says that the assertion \<^verbatim>\<open>CK_ASSERT(NewCapacity > Dict->Count)\<close> of
  \<^verbatim>\<open>CkpDictResize\<close> cannot fire in a dictionary reached through create, set and remove. With
  assertions compiled in, seventeen distinct keys give a table of 32 slots and 17 entries;
  removing one of them leaves 16 entries, the shrink test of \<^verbatim>\<open>CkpDictRemove\<close> succeeds
  (\<open>16 div 7 = 2\<close>) and the resize to 16 slots is requested with \<open>NewCapacity = Count = 16\<close>:
  the assertion fails. (The growing call of \<^verbatim>\<open>CkpDictSet\<close> meets the precondition in such
  runs, \<open>reachable_checked_grow_precondition\<close>.)
\<close>

theorem CkpDictRemove_shrink_violates_assertion:
  "summary (run_ops (=) True empty_dict
              (set_ops [0, 1, 2, 3, 4, 5, 6, 7, 8, 9, 10, 11, 12, 13, 14, 15, 16]))
     = Inr (17, 32)
   \<and> run_ops (=) True empty_dict
        (set_ops [0, 1, 2, 3, 4, 5, 6, 7, 8, 9, 10, 11, 12, 13, 14, 15, 16] @ remove_ops [0])
     = Inl AssertFailed"
  by (simp add: dict_eval)

subsection \<open>C4: inserting and removing the same keys\<close>

text \<open>
  Claim C4 says that setting N distinct keys and then removing all of them leaves
  \<open>Count = 0\<close>. For the eighteen integer keys 0 to 17, set and then removed in increasing order,
  the first removal asks for the shrink to 16 slots while 17 entries are in use. With
  assertions compiled out the re-insertion drops one entry, its later removal finds nothing,
  and the run ends with \<open>Count = 1\<close>; with assertions compiled in the run stops at the
  assertion of \<^verbatim>\<open>CkpDictResize\<close>.
\<close>

theorem set_all_remove_all_leaves_count:
  "summary (run_ops (=) False empty_dict
              (set_ops [0, 1, 2, 3, 4, 5, 6, 7, 8, 9, 10, 11, 12, 13, 14, 15, 16, 17]
               @ remove_ops [0, 1, 2, 3, 4, 5, 6, 7, 8, 9, 10, 11, 12, 13, 14, 15, 16, 17]))
     = Inr (1, 16)
   \<and> run_ops (=) True empty_dict
        (set_ops [0, 1, 2, 3, 4, 5, 6, 7, 8, 9, 10, 11, 12, 13, 14, 15, 16, 17]
         @ remove_ops [0, 1, 2, 3, 4, 5, 6, 7, 8, 9, 10, 11, 12, 13, 14, 15, 16, 17])
     = Inl AssertFailed"
  by (simp add: dict_eval)

subsection \<open>C5: the load bound after set\<close>

text \<open>
  Claim C5 says that after any set \<open>Count \<le> Capacity * 768 / 1024\<close>. With assertions compiled
  out, twenty-seven distinct keys followed by two removals leave a table of 16 slots whose
  count is 25 (each removal shrinks a table that is too full to shrink). The next set doubles
  the capacity to 32 only, and ends with \<open>Count = 25\<close> above the bound \<open>32 * 768 div 1024 = 24\<close>.
  (A set on a dictionary with \<open>Count \<le> Capacity\<close> does end within the bound,
  \<open>Set_load_bound\<close>; with assertions compiled in the second removal stops the run.)
\<close>

theorem CkpDictSet_over_load_after_shrinks:
  "summary (run_ops (=) False empty_dict
              (set_ops [0, 1, 2, 3, 4, 5, 6, 7, 8, 9, 10, 11, 12, 13, 14, 15, 16, 17, 18, 19,
                        20, 21, 22, 23, 24, 25, 26]
               @ remove_ops [0, 1]))
     = Inr (25, 16)
   \<and> summary (run_ops (=) False empty_dict
              (set_ops [0, 1, 2, 3, 4, 5, 6, 7, 8, 9, 10, 11, 12, 13, 14, 15, 16, 17, 18, 19,
                        20, 21, 22, 23, 24, 25, 26]
               @ remove_ops [0, 1] @ set_ops [2]))
     = Inr (25, 32)
   \<and> \<not> (25 \<le> 32 * DICT_LOAD_FACTOR div 1024)"
  by (simp add: dict_eval)

subsection \<open>C6: get after set\<close>

text \<open>
  Claim C6: after \<open>set(d, k, v)\<close> with no allocation failure, \<open>get(d, k)\<close> returns \<open>v\<close>. It holds
  for every dictionary whose array has \<open>Capacity\<close> slots of which at most \<open>Count\<close> are in use
  (\<open>dict_inv\<close>, which every dictionary reached from the empty one satisfies, see
  \<open>run_ops_inv\<close>), for every key other than the undefined value that is equal to itself; where
  assertions are compiled in, \<open>Count \<le> Capacity\<close> makes the assertion of the growing resize
  pass. The set returns, and the following get returns the value.
\<close>

theorem CkpDictSet_then_CkpDictGet:
  assumes "dict_inv dict"
      and "asserts \<longrightarrow> Count dict \<le> Capacity dict"
      and "\<not> CK_IS_UNDEFINED key"
      and "eq key key"
  shows "\<exists>d'. CkpDictSet eq asserts True dict key val = Inr d'
           \<and> CkpDictGet eq d' key = Inr val"
  using Set_then_Get [where eq = eq and key = key and val = val, OF assms] by blast

theorem CkpDictSet_then_CkpDictGet_witness:
  "dict_inv collision_dict
   \<and> Count collision_dict \<le> Capacity collision_dict
   \<and> \<not> CK_IS_UNDEFINED (int_key 32)
   \<and> (\<exists>d'. CkpDictSet (=) True True collision_dict (int_key 32) (int_key 5) = Inr d'
           \<and> CkpDictGet (=) d' (int_key 32) = Inr (int_key 5))"
proof -
  have h: "dict_inv collision_dict" "True \<longrightarrow> Count collision_dict \<le> Capacity collision_dict"
      "\<not> CK_IS_UNDEFINED (int_key 32)" "int_key 32 = int_key 32"
    by (simp_all add: collision_dict_facts int_key_def)
  from CkpDictSet_then_CkpDictGet [where eq = "(=)" and val = "int_key 5", OF h]
  show ?thesis using h by simp
qed

subsection \<open>C7: lookup\<close>

text \<open>
  Claim C7 describes the scan of \<^verbatim>\<open>CkpDictFindEntry\<close> and concludes that removing a key A
  that lies on the probe path of a key B leaves B findable. The scan is as described
  (\<open>FindEntry_refines\<close>: the loop stops with not found at the first empty slot, passes deleted
  slots and returns the first slot in use with an equal key; \<open>Find_through_tombstone\<close>: a key
  stays in its slot when another slot is marked deleted). The removal itself does not keep
  the promise. After the integer keys 0 to 16 and then 32 have been set, the table has 32
  slots, key 0 is in slot 0, and key 32, which hashes to slot 0 as well, was probed past it
  into slot 17. Removing key 0 leaves 17 entries and takes the shrink to 16 slots: with
  assertions compiled out the re-insertion drops key 32 and the get of key 32 reports not
  found; with assertions compiled in the run stops at the assertion of \<^verbatim>\<open>CkpDictResize\<close>.
\<close>

theorem CkpDictRemove_loses_key_probed_past_removed:
  "summary (run_ops (=) False empty_dict
              (set_ops [0, 1, 2, 3, 4, 5, 6, 7, 8, 9, 10, 11, 12, 13, 14, 15, 16, 32]))
     = Inr (18, 32)
   \<and> unat (CkpHashValue (int_key 0)) mod 32 = 0
   \<and> unat (CkpHashValue (int_key 32)) mod 32 = 0
   \<and> find_after (=)
         (run_ops (=) False empty_dict
            (set_ops [0, 1, 2, 3, 4, 5, 6, 7, 8, 9, 10, 11, 12, 13, 14, 15, 16, 32]))
         (int_key 0)
       = Inr (Some 0)
   \<and> find_after (=)
         (run_ops (=) False empty_dict
            (set_ops [0, 1, 2, 3, 4, 5, 6, 7, 8, 9, 10, 11, 12, 13, 14, 15, 16, 32]))
         (int_key 32)
       = Inr (Some 17)
   \<and> get_after (=)
         (run_ops (=) False empty_dict
            (set_ops [0, 1, 2, 3, 4, 5, 6, 7, 8, 9, 10, 11, 12, 13, 14, 15, 16, 32]))
         (int_key 32)
       = Inr (int_key 132)
   \<and> get_after (=)
         (run_ops (=) False empty_dict
            (set_ops [0, 1, 2, 3, 4, 5, 6, 7, 8, 9, 10, 11, 12, 13, 14, 15, 16, 32]
             @ remove_ops [0]))
         (int_key 32)
       = Inr CK_UNDEFINED_VALUE
   \<and> run_ops (=) True empty_dict
         (set_ops [0, 1, 2, 3, 4, 5, 6, 7, 8, 9, 10, 11, 12, 13, 14, 15, 16, 32]
          @ remove_ops [0])
       = Inl AssertFailed"
  by (simp add: dict_eval)

subsection \<open>C8: a failed allocation in resize\<close>

text \<open>
  Claim C8: when the allocation of the new array fails, \<^verbatim>\<open>CkpDictResize\<close> returns with the
  dictionary (array, \<open>Capacity\<close>, \<open>Count\<close>) as it was. With assertions compiled in, the
  assertion on \<open>NewCapacity\<close> is checked before the allocation; it is the only other outcome.
\<close>

theorem CkpDictResize_allocation_failure:
  "CkpDictResize eq False False dict newCapacity = Inr dict
   \<and> CkpDictResize eq True False dict newCapacity =
       (if newCapacity > Count dict then Inr dict else Inl AssertFailed)"
  by (simp add: CkpDictResize_def)

subsection \<open>C9: the result of remove\<close>

text \<open>
  Claim C9 says that \<^verbatim>\<open>CkpDictRemove\<close> returns the value stored at a present key and
  \<^verbatim>\<open>CK_NULL_VALUE\<close> for an absent one, which it leaves unchanged. The absent case is as
  claimed (\<open>Remove_absent\<close>). For a present key the value is returned only when the shrink that
  the removal may take passes the assertion of \<^verbatim>\<open>CkpDictResize\<close> (\<open>Remove_present\<close>). After the
  seventeen integer keys 0 to 16 have been set, key 0 is present with the value 100; with
  assertions compiled in, its removal stops at the assertion and returns nothing, with
  assertions compiled out it returns 100.
\<close>

theorem CkpDictRemove_present_key_stops_at_assertion:
  "summary (run_ops (=) True empty_dict
              (set_ops [0, 1, 2, 3, 4, 5, 6, 7, 8, 9, 10, 11, 12, 13, 14, 15, 16]))
     = Inr (17, 32)
   \<and> get_after (=)
         (run_ops (=) True empty_dict
            (set_ops [0, 1, 2, 3, 4, 5, 6, 7, 8, 9, 10, 11, 12, 13, 14, 15, 16]))
         (int_key 0)
       = Inr (int_key 100)
   \<and> remove_after (=) True
         (run_ops (=) True empty_dict
            (set_ops [0, 1, 2, 3, 4, 5, 6, 7, 8, 9, 10, 11, 12, 13, 14, 15, 16]))
         (int_key 0)
       = Inl AssertFailed
   \<and> remove_after (=) False
         (run_ops (=) False empty_dict
            (set_ops [0, 1, 2, 3, 4, 5, 6, 7, 8, 9, 10, 11, 12, 13, 14, 15, 16]))
         (int_key 0)
       = Inr (int_key 100)"
  by (simp add: dict_eval)

subsection \<open>C10: the hash of a value\<close>

text \<open>
  Claim C10: \<^verbatim>\<open>CkpHashValue\<close> is defined on every value. Null hashes to 0; an integer to its
  low 32 bits, so that \<open>-1\<close> hashes to \<open>0xFFFFFFFF\<close> and not to the hash of Null; a class to
  the cached hash of its name string, the same as that string; a range to the XOR of the low
  32 bits of its bounds; any other object to its address shifted right by four bits.
\<close>

theorem CkpHashValue_dispatch:
  "CkpHashValue CkValueNull = 0
   \<and> CkpHashValue (CkValueInteger i) = ucast i
   \<and> unat (CkpHashValue (CkValueInteger i)) = unat i mod 2 ^ 32
   \<and> CkpHashValue (CkValueInteger (- 1)) = 0xFFFFFFFF
   \<and> CkpHashValue (CkValueInteger (- 1)) \<noteq> CkpHashValue CkValueNull
   \<and> CkpHashValue (CkValueObject (CkObjectClass a name)) = Hash name
   \<and> CkpHashValue (CkValueObject (CkObjectClass a name))
       = CkpHashValue (CkValueObject (CkObjectString name))
   \<and> CkpHashValue (CkValueObject (CkObjectRange a from to)) = ucast from XOR ucast to
   \<and> CkpHashValue (CkValueObject (CkObjectOther a)) = of_nat (a div 16)"
proof -
  have "(ucast (- 1 :: 64 word) :: 32 word) = - 1"
    by (rule bit_word_eqI) (simp add: bit_simps)
  then have m1: "(ucast (- 1 :: 64 word) :: 32 word) = 0xFFFFFFFF" by simp
  show ?thesis
    by (simp add: m1 unsigned_ucast_eq take_bit_eq_mod drop_bit_eq_div)
qed

end
